theory Spec2Isabelle
  imports Main "HOL-Library.Word"
begin

section \<open>Machine types and output formatting\<close>

text \<open>
  The program is modelled for an LP64 platform: \<open>size_t\<close> and pointers are 64-bit
  unsigned words, \<open>int\<close> is a 32-bit two's-complement word (read with \<open>sint\<close>,
  compared with \<open><s\<close>, widened to \<open>size_t\<close> by sign extension \<open>scast\<close> and narrowed
  from it by truncation \<open>ucast\<close>), and \<open>sizeof(std::string_view)\<close> is 16 with
  alignment 8. A C string of \<open>argv\<close> is represented by the characters before its
  terminating NUL, and a \<open>std::string_view\<close> by the characters it views.
\<close>

type_synonym size_t = "64 word"
type_synonym addr = "64 word"
type_synonym c_int = "32 word"
type_synonym string_view = string

definition sizeof_string_view :: size_t where
  "sizeof_string_view = 16"

definition alignof_string_view :: size_t where
  "alignof_string_view = 8"

text \<open>
  The ways in which execution leaves the straight path: \<open>std::bad_alloc\<close> thrown by the
  arena (the specification's OutOfCapacity), \<open>std::length_error\<close> thrown by the vector,
  and an access outside the bounds of an array or span (undefined behaviour in C++).
\<close>

datatype error = bad_alloc | length_error | out_of_bounds

text \<open>Decimal formatting, as \<open>operator<<\<close> does for integers.\<close>

definition digit :: "nat \<Rightarrow> char" where
  "digit d = ''0123456789'' ! d"

function dec :: "nat \<Rightarrow> string" where
  "dec n = (if n < 10 then [digit n] else dec (n div 10) @ [digit (n mod 10)])"
  by pat_completeness auto
termination
  by (relation "measure (\<lambda>n. n)") auto

declare dec.simps [simp del]

definition dec_int :: "c_int \<Rightarrow> string" where
  "dec_int i = (if sint i < 0 then CHR ''-'' # dec (nat (- sint i)) else dec (nat (sint i)))"

section \<open>The bounded arena \<open>my_cust_allocator\<close>\<close>

record my_cust_allocator =
  buf :: addr
  buf_size :: size_t
  max_buf_size :: size_t

text \<open>
  The state the program acts on: the arena object \<open>pmr_alloc\<close> of \<open>main\<close> and the two
  output streams.
\<close>

record env =
  pmr_alloc :: my_cust_allocator
  cout :: string
  cerr :: string

text \<open>The constructor: \<open>buf(buf), buf_size(buf_size), max_buf_size(buf_size)\<close>.\<close>

definition my_cust_allocator_init :: "addr \<Rightarrow> size_t \<Rightarrow> my_cust_allocator" where
  "my_cust_allocator_init b n = \<lparr>buf = b, buf_size = n, max_buf_size = n\<rparr>"

text \<open>
  \<open>do_allocate\<close>: when \<open>bytes > buf_size\<close> a diagnostic goes to \<open>std::cerr\<close> and
  \<open>std::bad_alloc\<close> is thrown; otherwise \<open>buf_size\<close> is decremented and \<open>buf\<close> is
  returned. The alignment is not looked at.
\<close>

definition do_allocate :: "size_t \<Rightarrow> size_t \<Rightarrow> env \<Rightarrow> (error + addr) \<times> env" where
  "do_allocate bytes alignment s =
     (if bytes > buf_size (pmr_alloc s) then
        (Inl bad_alloc,
         s\<lparr>cerr := cerr s @ ''requested bytes: '' @ dec (unat bytes)
                    @ '', remaining bytes capacity: '' @ dec (unat (buf_size (pmr_alloc s)))
                    @ [CHR 0x0A]\<rparr>)
      else
        (Inr (buf (pmr_alloc s)),
         s\<lparr>pmr_alloc := (pmr_alloc s)\<lparr>buf_size := buf_size (pmr_alloc s) - bytes\<rparr>\<rparr>))"

text \<open>\<open>do_deallocate\<close> has an empty body.\<close>

definition do_deallocate :: "addr \<Rightarrow> size_t \<Rightarrow> size_t \<Rightarrow> env \<Rightarrow> env" where
  "do_deallocate p bytes alignment s = s"

text \<open>\<open>do_is_equal\<close> returns \<open>false\<close> for every other resource.\<close>

definition do_is_equal :: "my_cust_allocator \<Rightarrow> my_cust_allocator \<Rightarrow> bool" where
  "do_is_equal this other = False"

subsection \<open>Sequences of calls on the arena\<close>

text \<open>
  A client reaches the arena through the public interface of
  \<open>std::pmr::memory_resource\<close>, whose \<open>allocate\<close> and \<open>deallocate\<close> forward to
  \<open>do_allocate\<close> and \<open>do_deallocate\<close>. A call either returns a pointer, returns
  nothing, or throws; a client that catches the exception can go on calling.
\<close>

datatype call = allocate size_t size_t | deallocate addr size_t size_t

datatype outcome = returned_ptr addr | returned_void | threw error

fun invoke :: "call \<Rightarrow> env \<Rightarrow> outcome \<times> env" where
  "invoke (allocate bytes alignment) s =
     (case do_allocate bytes alignment s of
        (Inl e, s') \<Rightarrow> (threw e, s')
      | (Inr p, s') \<Rightarrow> (returned_ptr p, s'))"
| "invoke (deallocate p bytes alignment) s = (returned_void, do_deallocate p bytes alignment s)"

fun run :: "call list \<Rightarrow> env \<Rightarrow> outcome list \<times> env" where
  "run [] s = ([], s)"
| "run (c # cs) s =
     (case invoke c s of (r, s') \<Rightarrow> (case run cs s' of (rs, s'') \<Rightarrow> (r # rs, s'')))"

text \<open>The number of bytes a call asks the arena for.\<close>

fun requested :: "call \<Rightarrow> nat" where
  "requested (allocate bytes alignment) = unat bytes"
| "requested (deallocate p bytes alignment) = 0"

text \<open>The remaining capacity of the arena, as a number.\<close>

definition remaining :: "env \<Rightarrow> nat" where
  "remaining s = unat (buf_size (pmr_alloc s))"

text \<open>A state whose arena has just been constructed over \<open>n\<close> bytes at \<open>b\<close>.\<close>

definition fresh :: "addr \<Rightarrow> size_t \<Rightarrow> string \<Rightarrow> string \<Rightarrow> env" where
  "fresh b n out err = \<lparr>pmr_alloc = my_cust_allocator_init b n, cout = out, cerr = err\<rparr>"

section \<open>The argument vector: \<open>std::pmr::vector<std::string_view>\<close> over the arena\<close>

text \<open>
  The vector of the standard library (as libstdc++ implements it) is modelled by its data
  pointer (\<open>None\<close> for the null pointer), its elements and its capacity; every use it
  makes of its memory resource is a call of \<open>do_allocate\<close> or \<open>do_deallocate\<close>.
  The elements are kept as a list, not as bytes of the buffer: the vector has one block of
  storage at a time, and in \<open>main\<close> it asks the arena for storage only once.
\<close>

record pmr_vector =
  vec_data :: "addr option"
  vec_elems :: "string_view list"
  vec_capacity :: nat

text \<open>\<open>max_size()\<close> is \<open>PTRDIFF_MAX / sizeof(std::string_view)\<close>.\<close>

definition max_size :: nat where
  "max_size = (2 ^ 63 - 1) div 16"

text \<open>The vector constructed from \<open>&pmr_alloc\<close>: empty, with no storage.\<close>

definition vector_init :: pmr_vector where
  "vector_init = \<lparr>vec_data = None, vec_elems = [], vec_capacity = 0\<rparr>"

text \<open>Storage for \<open>n\<close> elements: nothing is requested for \<open>n = 0\<close>.\<close>

definition vec_allocate :: "nat \<Rightarrow> env \<Rightarrow> (error + addr option) \<times> env" where
  "vec_allocate n s =
     (if n = 0 then (Inr None, s)
      else (case do_allocate (of_nat n * sizeof_string_view) alignof_string_view s of
              (Inl e, s') \<Rightarrow> (Inl e, s')
            | (Inr p, s') \<Rightarrow> (Inr (Some p), s')))"

definition vec_deallocate :: "addr option \<Rightarrow> nat \<Rightarrow> env \<Rightarrow> env" where
  "vec_deallocate p n s =
     (case p of
        None \<Rightarrow> s
      | Some a \<Rightarrow> do_deallocate a (of_nat n * sizeof_string_view) alignof_string_view s)"

text \<open>
  \<open>reserve(n)\<close>: \<open>std::length_error\<close> beyond \<open>max_size()\<close>; new storage only when the
  capacity is smaller than \<open>n\<close>, the old storage being given back afterwards.
\<close>

definition reserve :: "size_t \<Rightarrow> pmr_vector \<Rightarrow> env \<Rightarrow> (error + pmr_vector) \<times> env" where
  "reserve n v s =
     (if max_size < unat n then (Inl length_error, s)
      else if vec_capacity v < unat n then
        (case vec_allocate (unat n) s of
           (Inl e, s') \<Rightarrow> (Inl e, s')
         | (Inr p, s') \<Rightarrow>
             (Inr \<lparr>vec_data = p, vec_elems = vec_elems v, vec_capacity = unat n\<rparr>,
              vec_deallocate (vec_data v) (vec_capacity v) s'))
      else (Inr v, s))"

text \<open>
  \<open>emplace_back(x)\<close>: the element goes into spare capacity when there is some; otherwise
  the vector grows to \<open>size + max(size, 1)\<close> elements (at most \<open>max_size()\<close>) in new
  storage.
\<close>

definition emplace_back :: "string_view \<Rightarrow> pmr_vector \<Rightarrow> env \<Rightarrow> (error + pmr_vector) \<times> env" where
  "emplace_back x v s =
     (if length (vec_elems v) < vec_capacity v then (Inr (v\<lparr>vec_elems := vec_elems v @ [x]\<rparr>), s)
      else if max_size - length (vec_elems v) < 1 then (Inl length_error, s)
      else
        (let len = length (vec_elems v) + max (length (vec_elems v)) 1;
             new_cap = (if max_size < len then max_size else len)
         in case vec_allocate new_cap s of
              (Inl e, s') \<Rightarrow> (Inl e, s')
            | (Inr p, s') \<Rightarrow>
                (Inr \<lparr>vec_data = p, vec_elems = vec_elems v @ [x], vec_capacity = new_cap\<rparr>,
                 vec_deallocate (vec_data v) (vec_capacity v) s')))"

section \<open>The entry point \<open>main\<close>\<close>

text \<open>
  \<open>argv[i]\<close>: the array handed over by the system holds a C string at the indices below
  its length; \<open>std::string_view\<close> cannot be built from anything else.
\<close>

definition argv_at :: "string list \<Rightarrow> c_int \<Rightarrow> error + string" where
  "argv_at argv i =
     (if 0 \<le>s i \<and> nat (sint i) < length argv then Inr (argv ! nat (sint i))
      else Inl out_of_bounds)"

text \<open>The loop \<open>for(int i = 0; i < argc; i++) args.emplace_back(argv[i])\<close>, from \<open>i\<close> on.\<close>

function emplace_args ::
  "c_int \<Rightarrow> string list \<Rightarrow> c_int \<Rightarrow> pmr_vector \<Rightarrow> env \<Rightarrow> (error + pmr_vector) \<times> env" where
  "emplace_args argc argv i args s =
     (if i <s argc then
        (case argv_at argv i of
           Inl e \<Rightarrow> (Inl e, s)
         | Inr a \<Rightarrow>
             (case emplace_back a args s of
                (Inl e, s') \<Rightarrow> (Inl e, s')
              | (Inr args', s') \<Rightarrow> emplace_args argc argv (i + 1) args' s'))
      else (Inr args, s))"
  by pat_completeness auto
termination
proof (relation "measure (\<lambda>(argc, argv, i, args, s). nat (sint argc - sint i))")
  show "wf (measure (\<lambda>(argc, argv, i, args, s). nat (sint argc - sint i)))"
    by simp
next
  fix argc :: c_int and argv :: "string list" and i :: c_int and args :: pmr_vector
    and s :: env and a x y x2 y2
  assume less: "i <s argc"
  have "sint argc < 2 ^ 31" using sint_lt [of argc] by simp
  with less have up: "sint i + 1 < 2 ^ 31" by (simp add: word_sless_alt)
  have lo: "- (2 ^ 31) \<le> sint i + 1" using sint_ge [of i] by simp
  have "sint (i + 1) = signed_take_bit 31 (sint i + 1)"
    by (simp add: sint_word_ariths)
  also have "\<dots> = sint i + 1"
    using lo up by (simp add: signed_take_bit_int_eq_self)
  finally have "sint (i + 1) = sint i + 1" .
  with less show "((argc, argv, i + 1, y2, y), (argc, argv, i, args, s))
      \<in> measure (\<lambda>(argc, argv, i, args, s). nat (sint argc - sint i))"
    by (simp add: word_sless_alt)
qed

declare emplace_args.simps [simp del]

text \<open>
  \<open>main\<close> up to the call of \<open>better_main\<close>: the diagnostic line on \<open>std::cerr\<close>, the
  buffer of \<open>(argc + 1) * sizeof(std::string_view)\<close> bytes that \<open>alloca\<close> yields at
  some address \<open>b\<close>, the arena over it, and the vector filled from \<open>argv\<close>.
\<close>

definition main_args :: "c_int \<Rightarrow> string list \<Rightarrow> addr \<Rightarrow> (error + pmr_vector) \<times> env" where
  "main_args argc argv b =
     (let err = ''DEBUG: argc: '' @ dec_int argc @ '', sizeof(std::string_view): ''
                @ dec (unat sizeof_string_view) @ [CHR 0x0A];
          bsz = scast (argc + 1) * sizeof_string_view;
          s = \<lparr>pmr_alloc = my_cust_allocator_init b bsz, cout = [], cerr = err\<rparr>
      in case reserve (scast argc) vector_init s of
           (Inl e, s') \<Rightarrow> (Inl e, s')
         | (Inr args, s') \<Rightarrow> emplace_args argc argv 0 args s')"

section \<open>The consumer \<open>better_main\<close>\<close>

text \<open>The lambda \<open>prn_arg\<close>: the argument between two double quotes.\<close>

definition prn_arg :: "string_view \<Rightarrow> env \<Rightarrow> env" where
  "prn_arg arg s = s\<lparr>cout := cout s @ [CHR 0x22] @ arg @ [CHR 0x22]\<rparr>"

text \<open>
  \<open>args[i]\<close> with an \<open>int\<close> index: the index is converted to \<open>size_t\<close>, and the access
  is inside the span exactly when the converted index is below its size.
\<close>

definition span_at :: "string_view list \<Rightarrow> c_int \<Rightarrow> error + string_view" where
  "span_at args i =
     (let idx = unat (scast i :: size_t)
      in if idx < length args then Inr (args ! idx) else Inl out_of_bounds)"

text \<open>The loop \<open>for(int i = 0; i < last_i; i++) prn_arg(args[i]) << ' '\<close>, from \<open>i\<close> on.\<close>

function print_args :: "string_view list \<Rightarrow> c_int \<Rightarrow> c_int \<Rightarrow> env \<Rightarrow> (error + unit) \<times> env" where
  "print_args args last_i i s =
     (if i <s last_i then
        (case span_at args i of
           Inl e \<Rightarrow> (Inl e, s)
         | Inr arg \<Rightarrow>
             print_args args last_i (i + 1) ((prn_arg arg s)\<lparr>cout := cout (prn_arg arg s) @ '' ''\<rparr>))
      else (Inr (), s))"
  by pat_completeness auto
termination
proof (relation "measure (\<lambda>(args, last_i, i, s). nat (sint last_i - sint i))")
  show "wf (measure (\<lambda>(args, last_i, i, s). nat (sint last_i - sint i)))"
    by simp
next
  fix args :: "string_view list" and last_i :: c_int and i :: c_int and s :: env and arg
  assume less: "i <s last_i"
  have "sint last_i < 2 ^ 31" using sint_lt [of last_i] by simp
  with less have up: "sint i + 1 < 2 ^ 31" by (simp add: word_sless_alt)
  have lo: "- (2 ^ 31) \<le> sint i + 1" using sint_ge [of i] by simp
  have "sint (i + 1) = signed_take_bit 31 (sint i + 1)"
    by (simp add: sint_word_ariths)
  also have "\<dots> = sint i + 1"
    using lo up by (simp add: signed_take_bit_int_eq_self)
  finally have "sint (i + 1) = sint i + 1" .
  with less show "((args, last_i, i + 1, (prn_arg arg s)\<lparr>cout := cout (prn_arg arg s) @ '' ''\<rparr>),
       (args, last_i, i, s)) \<in> measure (\<lambda>(args, last_i, i, s). nat (sint last_i - sint i))"
    by (simp add: word_sless_alt)
qed

declare print_args.simps [simp del]

text \<open>
  \<open>better_main\<close>: the prefix \<open>DEBUG: \<close> on \<open>std::cout\<close>, \<open>last_i = args.size() - 1\<close>
  narrowed to \<open>int\<close>, the loop, then \<open>args[last_i]\<close> and a newline; the status is 0.
\<close>

definition better_main :: "string_view list \<Rightarrow> env \<Rightarrow> (error + c_int) \<times> env" where
  "better_main args s =
     (let s0 = s\<lparr>cout := cout s @ ''DEBUG: ''\<rparr>;
          last_i = (ucast (of_nat (length args) - 1 :: size_t) :: c_int)
      in case print_args args last_i 0 s0 of
           (Inl e, s1) \<Rightarrow> (Inl e, s1)
         | (Inr u, s1) \<Rightarrow>
             (case span_at args last_i of
                Inl e \<Rightarrow> (Inl e, s1)
              | Inr arg \<Rightarrow> (Inr 0, (prn_arg arg s1)\<lparr>cout := cout (prn_arg arg s1) @ [CHR 0x0A]\<rparr>)))"

text \<open>\<open>main\<close>: build the arguments, then \<open>return better_main(args)\<close>.\<close>

definition main :: "c_int \<Rightarrow> string list \<Rightarrow> addr \<Rightarrow> (error + c_int) \<times> env" where
  "main argc argv b =
     (case main_args argc argv b of
        (Inl e, s) \<Rightarrow> (Inl e, s)
      | (Inr args, s) \<Rightarrow> better_main (vec_elems args) s)"

section \<open>Properties of the arena\<close>

lemma do_allocate_fails:
  "buf_size (pmr_alloc s) < bytes \<Longrightarrow>
   fst (do_allocate bytes al s) = Inl bad_alloc \<and> pmr_alloc (snd (do_allocate bytes al s)) = pmr_alloc s"
  by (simp add: do_allocate_def)

lemma do_allocate_succeeds:
  "bytes \<le> buf_size (pmr_alloc s) \<Longrightarrow>
   do_allocate bytes al s =
     (Inr (buf (pmr_alloc s)), s\<lparr>pmr_alloc := (pmr_alloc s)\<lparr>buf_size := buf_size (pmr_alloc s) - bytes\<rparr>\<rparr>)"
  by (simp add: do_allocate_def not_less [symmetric])

lemma remaining_after_allocate:
  "bytes \<le> buf_size (pmr_alloc s) \<Longrightarrow>
   remaining (snd (do_allocate bytes al s)) = remaining s - unat bytes"
  by (simp add: do_allocate_succeeds remaining_def unat_sub)

lemma invoke_remaining_le: "remaining (snd (invoke c s)) \<le> remaining s"
proof (cases c)
  case (allocate bytes al)
  show ?thesis
  proof (cases "bytes \<le> buf_size (pmr_alloc s)")
    case True
    then show ?thesis
      using remaining_after_allocate [OF True, of al]
      by (simp add: allocate do_allocate_succeeds)
  next
    case False
    then show ?thesis
      by (simp add: allocate do_allocate_def remaining_def not_le)
  qed
next
  case (deallocate p bytes al)
  then show ?thesis by (simp add: do_deallocate_def)
qed

lemma invoke_buf: "buf (pmr_alloc (snd (invoke c s))) = buf (pmr_alloc s)"
  by (cases c) (simp_all add: do_allocate_def do_deallocate_def)

lemma invoke_max_buf_size: "max_buf_size (pmr_alloc (snd (invoke c s))) = max_buf_size (pmr_alloc s)"
  by (cases c) (simp_all add: do_allocate_def do_deallocate_def)

lemma run_append:
  "run (cs @ ds) s =
     (case run cs s of (rs, s') \<Rightarrow> (case run ds s' of (rs', s'') \<Rightarrow> (rs @ rs', s'')))"
  by (induction cs arbitrary: s) (auto split: prod.splits)


lemma snd_run_Cons: "snd (run (c # cs) s) = snd (run cs (snd (invoke c s)))"
  by (simp split: prod.splits)

lemma fst_run_Cons: "fst (run (c # cs) s) = fst (invoke c s) # fst (run cs (snd (invoke c s)))"
  by (simp split: prod.splits)

lemma length_run: "length (fst (run cs s)) = length cs"
proof (induction cs arbitrary: s)
  case Nil
  show ?case by simp
next
  case (Cons c cs)
  show ?case by (simp only: fst_run_Cons list.size Cons.IH)
qed

lemma run_remaining_le: "remaining (snd (run cs s)) \<le> remaining s"
proof (induction cs arbitrary: s)
  case Nil
  show ?case by simp
next
  case (Cons c cs)
  have "remaining (snd (run cs (snd (invoke c s)))) \<le> remaining (snd (invoke c s))"
    by (rule Cons.IH)
  also have "\<dots> \<le> remaining s" by (rule invoke_remaining_le)
  finally show ?case by (simp only: snd_run_Cons)
qed

lemma run_buf: "buf (pmr_alloc (snd (run cs s))) = buf (pmr_alloc s)"
proof (induction cs arbitrary: s)
  case Nil
  show ?case by simp
next
  case (Cons c cs)
  have "buf (pmr_alloc (snd (run cs (snd (invoke c s))))) = buf (pmr_alloc (snd (invoke c s)))"
    by (rule Cons.IH)
  then show ?case by (simp only: snd_run_Cons invoke_buf)
qed

lemma invoke_allocate_within:
  assumes "unat bytes \<le> remaining s"
  shows "invoke (allocate bytes al) s =
           (returned_ptr (buf (pmr_alloc s)),
            s\<lparr>pmr_alloc := (pmr_alloc s)\<lparr>buf_size := buf_size (pmr_alloc s) - bytes\<rparr>\<rparr>)"
proof -
  from assms have "bytes \<le> buf_size (pmr_alloc s)"
    by (simp add: remaining_def word_le_nat_alt)
  then show ?thesis by (simp add: do_allocate_succeeds)
qed

lemma run_within_capacity:
  "sum_list (map requested cs) \<le> remaining s \<Longrightarrow> threw e \<notin> set (fst (run cs s))"
proof (induction cs arbitrary: s)
  case Nil
  show ?case by simp
next
  case (Cons c cs)
  show ?case
  proof (cases c)
    case (allocate bytes al)
    from Cons.prems allocate have le: "unat bytes \<le> remaining s" by simp
    then have wle: "bytes \<le> buf_size (pmr_alloc s)"
      by (simp add: remaining_def word_le_nat_alt)
    have inv: "invoke c s = (returned_ptr (buf (pmr_alloc s)), snd (invoke c s))"
      using invoke_allocate_within [OF le, of al] by (simp add: allocate)
    have "remaining (snd (invoke c s)) = remaining s - unat bytes"
      using remaining_after_allocate [OF wle, of al] by (simp add: allocate do_allocate_succeeds wle)
    with Cons.prems allocate have "sum_list (map requested cs) \<le> remaining (snd (invoke c s))"
      by simp
    then have "threw e \<notin> set (fst (run cs (snd (invoke c s))))" by (rule Cons.IH)
    moreover have "fst (invoke c s) \<noteq> threw e" using inv by (metis fst_conv outcome.distinct(3))
    ultimately show ?thesis by (auto simp add: fst_run_Cons simp del: run.simps)
  next
    case (deallocate p bytes al)
    with Cons.prems have "sum_list (map requested cs) \<le> remaining (snd (invoke c s))"
      by (simp add: do_deallocate_def)
    then have "threw e \<notin> set (fst (run cs (snd (invoke c s))))" by (rule Cons.IH)
    moreover have "fst (invoke c s) \<noteq> threw e" by (simp add: deallocate)
    ultimately show ?thesis by (auto simp add: fst_run_Cons simp del: run.simps)
  qed
qed

lemma invoke_returned_ptr: "fst (invoke c s) = returned_ptr p \<Longrightarrow> p = buf (pmr_alloc s)"
  by (cases c) (auto simp: do_allocate_def split: if_splits)

lemma run_returned_ptr:
  "returned_ptr p \<in> set (fst (run cs s)) \<Longrightarrow> p = buf (pmr_alloc s)"
proof (induction cs arbitrary: s)
  case Nil
  then show ?case by simp
next
  case (Cons c cs)
  from Cons.prems
  have "fst (invoke c s) = returned_ptr p \<or> returned_ptr p \<in> set (fst (run cs (snd (invoke c s))))"
    by (auto simp add: fst_run_Cons simp del: run.simps)
  then show ?case
  proof
    assume "fst (invoke c s) = returned_ptr p"
    then show ?thesis by (rule invoke_returned_ptr)
  next
    assume "returned_ptr p \<in> set (fst (run cs (snd (invoke c s))))"
    then have "p = buf (pmr_alloc (snd (invoke c s)))" by (rule Cons.IH)
    then show ?thesis by (simp only: invoke_buf)
  qed
qed

lemma invoke_capacity_bound:
  "buf_size (pmr_alloc s) \<le> max_buf_size (pmr_alloc s) \<Longrightarrow>
   buf_size (pmr_alloc (snd (invoke c s))) \<le> max_buf_size (pmr_alloc (snd (invoke c s)))"
proof (cases c)
  case (allocate bytes al)
  assume le: "buf_size (pmr_alloc s) \<le> max_buf_size (pmr_alloc s)"
  show ?thesis
  proof (cases "bytes \<le> buf_size (pmr_alloc s)")
    case True
    then have "buf_size (pmr_alloc s) - bytes \<le> buf_size (pmr_alloc s)"
      by (simp add: word_le_nat_alt unat_sub)
    with le True show ?thesis by (simp add: allocate do_allocate_succeeds)
  next
    case False
    with le show ?thesis by (simp add: allocate do_allocate_def not_le)
  qed
next
  case (deallocate p bytes al)
  assume "buf_size (pmr_alloc s) \<le> max_buf_size (pmr_alloc s)"
  then show ?thesis by (simp add: deallocate do_deallocate_def)
qed

lemma invoke_allocate_size:
  "fst (invoke (allocate bytes al) s) = returned_ptr p \<Longrightarrow> bytes \<le> buf_size (pmr_alloc s)"
  by (auto simp: do_allocate_def split: if_splits)

lemma run_region:
  "buf_size (pmr_alloc s) \<le> max_buf_size (pmr_alloc s) \<Longrightarrow> i < length cs \<Longrightarrow>
   cs ! i = allocate bytes al \<Longrightarrow> fst (run cs s) ! i = returned_ptr p \<Longrightarrow>
   p = buf (pmr_alloc s) \<and> bytes \<le> max_buf_size (pmr_alloc s)"
proof (induction cs arbitrary: s i)
  case Nil
  then show ?case by simp
next
  case (Cons c cs)
  show ?case
  proof (cases i)
    case 0
    with Cons.prems have c: "c = allocate bytes al" and r: "fst (invoke c s) = returned_ptr p"
      by (simp_all only: fst_run_Cons nth_Cons_0)
    from r have "p = buf (pmr_alloc s)" by (rule invoke_returned_ptr)
    moreover from r c have "bytes \<le> buf_size (pmr_alloc s)" using invoke_allocate_size by blast
    ultimately show ?thesis using Cons.prems(1) by simp
  next
    case (Suc j)
    with Cons.prems have j: "j < length cs" and cj: "cs ! j = allocate bytes al"
      and rj: "fst (run cs (snd (invoke c s))) ! j = returned_ptr p"
      by (simp_all only: fst_run_Cons nth_Cons_Suc list.size)
    from invoke_capacity_bound [OF Cons.prems(1)] j cj rj
    have "p = buf (pmr_alloc (snd (invoke c s))) \<and> bytes \<le> max_buf_size (pmr_alloc (snd (invoke c s)))"
      by (rule Cons.IH)
    then show ?thesis by (simp only: invoke_buf invoke_max_buf_size)
  qed
qed

text \<open>
  Claim C7. \<open>do_deallocate\<close> is a no-op for all arguments: the whole state, and so the
  remaining capacity and every other field of the arena, is the same after the call as
  before it, also when the call comes through the public \<open>deallocate\<close>.
\<close>

theorem deallocate_is_noop:
  "do_deallocate p bytes alignment s = s \<and>
   invoke (deallocate p bytes alignment) s = (returned_void, s)"
  by (simp add: do_deallocate_def)

text \<open>
  Claim C4. After a successful \<open>do_allocate\<close> of \<open>bytes\<close> bytes the remaining capacity
  is the remaining capacity before the call minus exactly \<open>bytes\<close>; the subtraction
  does not wrap, since success means that \<open>bytes\<close> was within the remaining capacity.
\<close>

theorem allocate_decrements_capacity:
  assumes "do_allocate bytes alignment s = (Inr p, s')"
  shows "unat bytes \<le> remaining s \<and> remaining s' = remaining s - unat bytes"
proof -
  from assms have le: "bytes \<le> buf_size (pmr_alloc s)"
    by (auto simp: do_allocate_def split: if_splits)
  with assms have "s' = snd (do_allocate bytes alignment s)" by simp
  with le show ?thesis
    using remaining_after_allocate [OF le, of alignment]
    by (simp add: remaining_def word_le_nat_alt)
qed

theorem allocate_decrements_capacity_witness:
  "do_allocate 48 8 (fresh 4096 64 [] [])
     = (Inr 4096, snd (do_allocate 48 8 (fresh 4096 64 [] []))) \<and>
   remaining (fresh 4096 64 [] []) = 64 \<and>
   remaining (snd (do_allocate 48 8 (fresh 4096 64 [] []))) = 16"
proof -
  have h: "do_allocate 48 8 (fresh 4096 64 [] [])
     = (Inr 4096, snd (do_allocate 48 8 (fresh 4096 64 [] [])))"
    by (simp add: do_allocate_def fresh_def my_cust_allocator_init_def)
  have r: "remaining (fresh 4096 64 [] []) = 64"
    by (simp add: remaining_def fresh_def my_cust_allocator_init_def)
  from allocate_decrements_capacity [OF h] r h show ?thesis by simp
qed

text \<open>
  Claim C1. In every state of the arena, a request larger than the remaining capacity
  fails with \<open>std::bad_alloc\<close> (OutOfCapacity) and leaves the arena, hence its remaining
  capacity, unchanged; and in an arena constructed over \<open>n\<close> bytes, no call of a
  sequence whose requests add up to at most \<open>n\<close> throws.
\<close>

theorem allocate_out_of_capacity:
  "(remaining s < unat bytes \<longrightarrow>
      fst (do_allocate bytes alignment s) = Inl bad_alloc \<and>
      pmr_alloc (snd (do_allocate bytes alignment s)) = pmr_alloc s \<and>
      remaining (snd (do_allocate bytes alignment s)) = remaining s) \<and>
   (sum_list (map requested cs) \<le> unat n \<longrightarrow>
      (\<forall>e. threw e \<notin> set (fst (run cs (fresh b n out err)))))"
proof (intro conjI impI allI)
  assume "remaining s < unat bytes"
  then have less: "buf_size (pmr_alloc s) < bytes"
    by (simp add: remaining_def word_less_nat_alt)
  from do_allocate_fails [OF less, of alignment]
  show "fst (do_allocate bytes alignment s) = Inl bad_alloc"
    and "pmr_alloc (snd (do_allocate bytes alignment s)) = pmr_alloc s"
    and "remaining (snd (do_allocate bytes alignment s)) = remaining s"
    by (simp_all add: remaining_def)
next
  fix e
  assume "sum_list (map requested cs) \<le> unat n"
  then have "sum_list (map requested cs) \<le> remaining (fresh b n out err)"
    by (simp add: remaining_def fresh_def my_cust_allocator_init_def)
  then show "threw e \<notin> set (fst (run cs (fresh b n out err)))"
    by (rule run_within_capacity)
qed

theorem allocate_out_of_capacity_witness:
  "remaining (fresh 4096 16 [] []) < unat (100 :: size_t) \<and>
   fst (do_allocate 100 8 (fresh 4096 16 [] [])) = Inl bad_alloc \<and>
   remaining (snd (do_allocate 100 8 (fresh 4096 16 [] []))) = 16 \<and>
   sum_list (map requested [allocate 8 8, deallocate 4096 8 8, allocate 8 8]) \<le> unat (16 :: size_t) \<and>
   (\<forall>e. threw e \<notin> set (fst (run [allocate 8 8, deallocate 4096 8 8, allocate 8 8]
                                   (fresh 4096 16 [] []))))"
proof -
  have r: "remaining (fresh 4096 16 [] []) = 16"
    by (simp add: remaining_def fresh_def my_cust_allocator_init_def)
  have h2: "sum_list (map requested [allocate 8 8, deallocate 4096 8 8, allocate 8 8])
              \<le> unat (16 :: size_t)"
    by simp
  from allocate_out_of_capacity
         [of "fresh 4096 16 [] []" 100 8 "[allocate 8 8, deallocate 4096 8 8, allocate 8 8]"
             16 4096 "[]" "[]"]
  show ?thesis using r h2 by simp
qed

text \<open>
  Claim C5. In every state reachable from the construction of the arena over a buffer at
  \<open>b\<close>, a successful allocation returns \<open>b\<close> itself: every pointer returned in any
  sequence of calls is the start of the buffer, whatever has been allocated before.
\<close>

theorem allocate_returns_base:
  "returned_ptr p \<in> set (fst (run cs (fresh b n out err))) \<Longrightarrow> p = b"
proof -
  assume "returned_ptr p \<in> set (fst (run cs (fresh b n out err)))"
  then have "p = buf (pmr_alloc (fresh b n out err))" by (rule run_returned_ptr)
  then show "p = b" by (simp add: fresh_def my_cust_allocator_init_def)
qed

theorem allocate_returns_base_witness:
  "fst (run [allocate 8 8, allocate 8 8] (fresh 4096 16 [] []))
     = [returned_ptr 4096, returned_ptr 4096] \<and>
   returned_ptr 4096 \<in> set (fst (run [allocate 8 8, allocate 8 8] (fresh 4096 16 [] []))) \<and>
   (4096 :: addr) = buf (pmr_alloc (fresh 4096 16 [] []))"
proof -
  have e: "fst (run [allocate 8 8, allocate 8 8] (fresh 4096 16 [] []))
          = [returned_ptr 4096, returned_ptr 4096]"
    by (simp add: do_allocate_def fresh_def my_cust_allocator_init_def)
  then have h: "returned_ptr 4096
                  \<in> set (fst (run [allocate 8 8, allocate 8 8] (fresh 4096 16 [] [])))"
    by simp
  from allocate_returns_base [OF h] e h show ?thesis
    by (simp add: fresh_def my_cust_allocator_init_def)
qed

text \<open>
  Claim C8. Along every sequence of calls the remaining capacity never increases: after
  any further calls \<open>ds\<close> it is at most what it was after \<open>cs\<close>. And every region
  returned by a successful allocation in an arena constructed over the \<open>n\<close> bytes at
  \<open>b\<close>, from the returned pointer up to that pointer plus the size asked for, lies
  within the buffer from \<open>b\<close> to \<open>b + n\<close>.
\<close>

theorem capacity_monotone_and_regions_in_bounds:
  "remaining (snd (run (cs @ ds) s)) \<le> remaining (snd (run cs s)) \<and>
   (\<forall>i<length cs. \<forall>bytes alignment p.
      cs ! i = allocate bytes alignment \<and>
      fst (run cs (fresh b n out err)) ! i = returned_ptr p \<longrightarrow>
      unat b \<le> unat p \<and> unat p + unat bytes \<le> unat b + unat n)"
proof (intro conjI allI impI)
  have "snd (run (cs @ ds) s) = snd (run ds (snd (run cs s)))"
    by (simp add: run_append split: prod.splits)
  then show "remaining (snd (run (cs @ ds) s)) \<le> remaining (snd (run cs s))"
    by (simp add: run_remaining_le)
next
  fix i bytes alignment p
  assume i: "i < length cs"
    and "cs ! i = allocate bytes alignment \<and>
         fst (run cs (fresh b n out err)) ! i = returned_ptr p"
  then have c: "cs ! i = allocate bytes alignment"
    and r: "fst (run cs (fresh b n out err)) ! i = returned_ptr p"
    by simp_all
  have "buf_size (pmr_alloc (fresh b n out err)) \<le> max_buf_size (pmr_alloc (fresh b n out err))"
    by (simp add: fresh_def my_cust_allocator_init_def)
  from run_region [OF this i c r]
  have "p = b" and "bytes \<le> n"
    by (simp_all add: fresh_def my_cust_allocator_init_def)
  then show "unat b \<le> unat p" and "unat p + unat bytes \<le> unat b + unat n"
    by (simp_all add: word_le_nat_alt)
qed

theorem capacity_monotone_and_regions_in_bounds_witness:
  "remaining (snd (run ([allocate 8 8] @ [deallocate 4096 8 8, allocate 4 4]) (fresh 4096 16 [] [])))
     \<le> remaining (snd (run [allocate 8 8] (fresh 4096 16 [] []))) \<and>
   (0::nat) < length [allocate 8 8 :: call] \<and>
   [allocate 8 8] ! 0 = allocate 8 8 \<and>
   fst (run [allocate 8 8] (fresh 4096 16 [] [])) ! 0 = returned_ptr 4096 \<and>
   unat (4096 :: addr) \<le> unat (4096 :: addr) \<and>
   unat (4096 :: addr) + unat (8 :: size_t) \<le> unat (4096 :: addr) + unat (16 :: size_t)"
proof -
  have r: "fst (run [allocate 8 8] (fresh 4096 16 [] [])) ! 0 = returned_ptr 4096"
    by (simp add: do_allocate_def fresh_def my_cust_allocator_init_def)
  from capacity_monotone_and_regions_in_bounds
         [of "[allocate 8 8]" "[deallocate 4096 8 8, allocate 4 4]" "fresh 4096 16 [] []"
             4096 16 "[]" "[]"]
  show ?thesis using r by simp
qed

section \<open>Integer conversions\<close>

lemma sint_c_int_bound: "sint i < 2147483648" for i :: c_int
  using sint_lt [of i] by simp

lemma unat_scast_take_bit: "unat (scast i :: size_t) = nat (take_bit 64 (sint i))" for i :: c_int
proof -
  have "unat (scast i :: size_t) = nat (take_bit LENGTH(64) (sint i))"
    by (simp only: scast_eq unsigned_of_int of_nat_id id_apply)
  then show ?thesis by simp
qed

lemma unat_scast_nonneg: "0 \<le>s i \<Longrightarrow> unat (scast i :: size_t) = nat (sint i)" for i :: c_int
proof -
  assume "0 \<le>s i"
  then have nn: "0 \<le> sint i" by (simp add: word_sle_eq)
  have "(2147483648 :: int) \<le> 2 ^ 64" by simp
  with sint_c_int_bound [of i] have "sint i < 2 ^ 64" by linarith
  with nn have "take_bit 64 (sint i) = sint i" by (rule take_bit_int_eq_self)
  then show ?thesis by (simp only: unat_scast_take_bit)
qed

lemma sint_last_i:
  assumes "1 \<le> n" and "n \<le> 2 ^ 31"
  shows "sint (ucast (of_nat n - 1 :: size_t) :: c_int) = int n - 1"
proof -
  from assms have m: "n - 1 < 2 ^ 31" by simp
  from assms have "(of_nat n - 1 :: size_t) = of_nat (n - 1)" by (simp add: of_nat_diff)
  moreover have "unat (of_nat (n - 1) :: size_t) = n - 1"
    using m by (simp add: unat_of_nat)
  ultimately have "uint (of_nat n - 1 :: size_t) = int (n - 1)"
    by (simp add: uint_nat)
  then have "(ucast (of_nat n - 1 :: size_t) :: c_int) = of_nat (n - 1)"
    by (simp add: ucast_eq)
  then have "sint (ucast (of_nat n - 1 :: size_t) :: c_int) = signed_take_bit 31 (int (n - 1))"
    by (simp add: signed_of_nat)
  also have "\<dots> = int (n - 1)"
    using m by (simp add: signed_take_bit_int_eq_self)
  finally show ?thesis using assms by simp
qed

lemma unat_scast_times_sizeof:
  fixes i :: c_int
  assumes "0 \<le>s i"
  shows "unat (scast i * sizeof_string_view :: size_t) = nat (sint i) * 16"
proof -
  have u: "unat (scast i :: size_t) = nat (sint i)" using assms by (rule unat_scast_nonneg)
  have "nat (sint i) < 2147483648" using sint_c_int_bound [of i] by linarith
  then have "unat (scast i :: size_t) * unat (16 :: size_t) < 2 ^ LENGTH(64)"
    by (simp add: u)
  then have "unat (scast i * 16 :: size_t) = unat (scast i :: size_t) * unat (16 :: size_t)"
    by (simp only: unat_mult_lem)
  then show ?thesis by (simp add: u sizeof_string_view_def)
qed

lemma buffer_size_at_int_max:
  "unat (scast (2147483647 + 1 :: c_int) * sizeof_string_view :: size_t) = 18446744039349813248"
proof -
  have "(2147483647 + 1 :: c_int) = 2147483648" by simp
  moreover have "sint (2147483648 :: c_int) = - 2147483648" by simp
  ultimately have "(scast (2147483647 + 1 :: c_int) :: size_t) = word_of_int (- 2147483648)"
    by (simp only: scast_eq)
  moreover have "(word_of_int (- 2147483648) * 16 :: size_t) = word_of_int (- 34359738368)"
    by (simp only: word_of_int_numeral [symmetric] wi_hom_mult) simp
  moreover have "unat (word_of_int (- 34359738368) :: size_t) = 18446744039349813248"
    by (simp add: unsigned_of_int take_bit_eq_mod)
  ultimately show ?thesis by (simp only: sizeof_string_view_def)
qed

lemma int_max_nonneg: "0 \<le>s (2147483647 :: c_int)"
  by (simp add: word_sle_eq)

lemma int_max_records: "nat (sint (2147483647 :: c_int)) * 16 = 34359738352"
  by simp

lemma reservation_at_int_max:
  "unat (scast (2147483647 :: c_int) * sizeof_string_view :: size_t) = 34359738352"
  by (simp only: unat_scast_times_sizeof [OF int_max_nonneg] int_max_records)

lemma reservation_le_buffer_at_int_max:
  "unat (scast (2147483647 :: c_int) * sizeof_string_view :: size_t)
     \<le> unat (scast (2147483647 + 1 :: c_int) * sizeof_string_view :: size_t)"
proof -
  have "(34359738352 :: nat) \<le> 18446744039349813248" by simp
  then show ?thesis by (simp only: reservation_at_int_max buffer_size_at_int_max)
qed

lemma reservation_le_buffer:
  fixes argc :: c_int
  assumes "0 \<le>s argc"
  shows "scast argc * sizeof_string_view \<le> (scast (argc + 1) * sizeof_string_view :: size_t)"
proof (cases "argc = 2147483647")
  case True
  from reservation_le_buffer_at_int_max show ?thesis by (simp only: True word_le_nat_alt)
next
  case False
  from assms have nn: "0 \<le> sint argc" by (simp add: word_sle_eq)
  have "sint argc \<noteq> 2147483647"
  proof
    assume "sint argc = 2147483647"
    then have "word_of_int (sint argc) = (word_of_int 2147483647 :: c_int)" by simp
    then have "argc = 2147483647" by simp
    with False show False by simp
  qed
  then have lt: "sint argc < 2147483647" using sint_c_int_bound [of argc] by linarith
  have "sint (argc + 1) = signed_take_bit 31 (sint argc + 1)"
    by (simp add: sint_word_ariths)
  also have "\<dots> = sint argc + 1"
    using nn lt by (simp add: signed_take_bit_int_eq_self)
  finally have s1: "sint (argc + 1) = sint argc + 1" .
  with nn have "0 \<le>s argc + 1" by (simp add: word_sle_eq)
  then have "unat (scast (argc + 1) * sizeof_string_view :: size_t) = nat (sint (argc + 1)) * 16"
    by (rule unat_scast_times_sizeof)
  moreover have "unat (scast argc * sizeof_string_view :: size_t) = nat (sint argc) * 16"
    using assms by (rule unat_scast_times_sizeof)
  ultimately show ?thesis using s1 nn by (simp add: word_le_nat_alt)
qed

section \<open>The loops and the vector in \<open>main\<close>\<close>

lemma sint_succ: "i <s n \<Longrightarrow> sint (i + 1) = sint i + 1" for i n :: c_int
proof -
  assume less: "i <s n"
  have "sint n < 2 ^ 31" using sint_lt [of n] by simp
  with less have up: "sint i + 1 < 2 ^ 31" by (simp add: word_sless_alt)
  have lo: "- (2 ^ 31) \<le> sint i + 1" using sint_ge [of i] by simp
  have "sint (i + 1) = signed_take_bit 31 (sint i + 1)"
    by (simp add: sint_word_ariths)
  also have "\<dots> = sint i + 1"
    using lo up by (simp add: signed_take_bit_int_eq_self)
  finally show ?thesis .
qed

lemma emplace_back_spare:
  "length (vec_elems v) < vec_capacity v \<Longrightarrow>
   emplace_back x v s = (Inr (v\<lparr>vec_elems := vec_elems v @ [x]\<rparr>), s)"
  by (simp add: emplace_back_def)

lemma argv_at_in_range:
  "0 \<le>s i \<Longrightarrow> nat (sint i) < length argv \<Longrightarrow> argv_at argv i = Inr (argv ! nat (sint i))"
  by (simp add: argv_at_def)

lemma argv_at_beyond:
  "\<not> nat (sint i) < length argv \<Longrightarrow> argv_at argv i = Inl out_of_bounds"
  by (simp add: argv_at_def)

lemma emplace_args_exit:
  "\<not> i <s argc \<Longrightarrow> emplace_args argc argv i v s = (Inr v, s)"
  by (simp add: emplace_args.simps [of argc argv i v s])

lemma emplace_args_step:
  "i <s argc \<Longrightarrow> argv_at argv i = Inr a \<Longrightarrow> emplace_back a v s = (Inr v', s') \<Longrightarrow>
   emplace_args argc argv i v s = emplace_args argc argv (i + 1) v' s'"
  by (simp add: emplace_args.simps [of argc argv i v s])

lemma emplace_args_stop:
  "i <s argc \<Longrightarrow> argv_at argv i = Inl e \<Longrightarrow> emplace_args argc argv i v s = (Inl e, s)"
  by (simp add: emplace_args.simps [of argc argv i v s])

lemma emplace_args_filled:
  assumes "0 \<le>s i" and "i \<le>s argc" and "length (vec_elems v) = nat (sint i)"
    and "vec_capacity v = nat (sint argc)" and "nat (sint argc) \<le> length argv"
  shows "emplace_args argc argv i v s =
           (Inr (v\<lparr>vec_elems := vec_elems v @ drop (nat (sint i)) (take (nat (sint argc)) argv)\<rparr>), s)"
  using assms
proof (induction argc argv i v s rule: emplace_args.induct)
  case (1 argc argv i args s)
  show ?case
  proof (cases "i <s argc")
    case True
    let ?k = "nat (sint argc)"
    let ?a = "argv ! nat (sint i)"
    let ?args' = "args\<lparr>vec_elems := vec_elems args @ [?a]\<rparr>"
    from "1.prems"(1) have nn: "0 \<le> sint i" by (simp add: word_sle_eq)
    from True have lt: "sint i < sint argc" by (simp add: word_sless_alt)
    have s1: "sint (i + 1) = sint i + 1" using True by (rule sint_succ)
    have n1: "nat (sint (i + 1)) = Suc (nat (sint i))" using nn s1 by simp
    have ik: "nat (sint i) < ?k" using nn lt by linarith
    with "1.prems"(5) have inr: "nat (sint i) < length argv" by linarith
    have av: "argv_at argv i = Inr ?a" using "1.prems"(1) inr by (rule argv_at_in_range)
    have "length (vec_elems args) < vec_capacity args" using "1.prems"(3,4) ik by simp
    then have eb: "emplace_back ?a args s = (Inr ?args', s)" by (rule emplace_back_spare)
    have "emplace_args argc argv (i + 1) ?args' s =
            (Inr (?args'\<lparr>vec_elems := vec_elems ?args'
                    @ drop (nat (sint (i + 1))) (take ?k argv)\<rparr>), s)"
    proof (rule "1.IH" [OF True av eb [symmetric] refl])
      show "0 \<le>s i + 1" using nn s1 by (simp add: word_sle_eq)
      show "i + 1 \<le>s argc" using lt s1 by (simp add: word_sle_eq)
      show "length (vec_elems ?args') = nat (sint (i + 1))" using "1.prems"(3) n1 by simp
      show "vec_capacity ?args' = nat (sint argc)" using "1.prems"(4) by simp
      show "nat (sint argc) \<le> length argv" by (rule "1.prems"(5))
    qed
    moreover have "?a # drop (Suc (nat (sint i))) (take ?k argv) = drop (nat (sint i)) (take ?k argv)"
    proof -
      have "nat (sint i) < length (take ?k argv)" using ik "1.prems"(5) by simp
      then have "take ?k argv ! nat (sint i) # drop (Suc (nat (sint i))) (take ?k argv)
                   = drop (nat (sint i)) (take ?k argv)"
        by (rule Cons_nth_drop_Suc)
      then show ?thesis using ik by simp
    qed
    ultimately show ?thesis
      by (simp add: emplace_args_step [OF True av eb] n1)
  next
    case False
    with "1.prems"(2) have "i = argc" by (simp add: signed.antisym_conv1)
    then show ?thesis using False by (simp add: emplace_args_exit)
  qed
qed

lemma emplace_args_no_alloc:
  assumes "0 \<le>s i" and "i \<le>s argc" and "length (vec_elems v) = nat (sint i)"
    and "vec_capacity v = nat (sint argc)"
  shows "snd (emplace_args argc argv i v s) = s \<and>
         fst (emplace_args argc argv i v s) \<noteq> Inl bad_alloc"
  using assms
proof (induction argc argv i v s rule: emplace_args.induct)
  case (1 argc argv i args s)
  show ?case
  proof (cases "i <s argc")
    case True
    let ?a = "argv ! nat (sint i)"
    let ?args' = "args\<lparr>vec_elems := vec_elems args @ [?a]\<rparr>"
    from "1.prems"(1) have nn: "0 \<le> sint i" by (simp add: word_sle_eq)
    from True have lt: "sint i < sint argc" by (simp add: word_sless_alt)
    have s1: "sint (i + 1) = sint i + 1" using True by (rule sint_succ)
    have n1: "nat (sint (i + 1)) = Suc (nat (sint i))" using nn s1 by simp
    have ik: "nat (sint i) < nat (sint argc)" using nn lt by linarith
    show ?thesis
    proof (cases "nat (sint i) < length argv")
      case inr: True
      have av: "argv_at argv i = Inr ?a" using "1.prems"(1) inr by (rule argv_at_in_range)
      have "length (vec_elems args) < vec_capacity args" using "1.prems"(3,4) ik by simp
      then have eb: "emplace_back ?a args s = (Inr ?args', s)" by (rule emplace_back_spare)
      have "snd (emplace_args argc argv (i + 1) ?args' s) = s \<and>
            fst (emplace_args argc argv (i + 1) ?args' s) \<noteq> Inl bad_alloc"
      proof (rule "1.IH" [OF True av eb [symmetric] refl])
        show "0 \<le>s i + 1" using nn s1 by (simp add: word_sle_eq)
        show "i + 1 \<le>s argc" using lt s1 by (simp add: word_sle_eq)
        show "length (vec_elems ?args') = nat (sint (i + 1))" using "1.prems"(3) n1 by simp
        show "vec_capacity ?args' = nat (sint argc)" using "1.prems"(4) by simp
      qed
      then show ?thesis by (simp add: emplace_args_step [OF True av eb])
    next
      case False
      then have "argv_at argv i = Inl out_of_bounds" by (rule argv_at_beyond)
      with True show ?thesis by (simp add: emplace_args_stop)
    qed
  next
    case False
    then show ?thesis by (simp add: emplace_args_exit)
  qed
qed

lemma reserve_in_main:
  fixes argc :: c_int
  assumes "0 \<le>s argc"
  shows "\<exists>v s'. reserve (scast argc) vector_init
                  (fresh b (scast (argc + 1) * sizeof_string_view) out err) = (Inr v, s') \<and>
                vec_elems v = [] \<and> vec_capacity v = nat (sint argc) \<and>
                cout s' = out \<and> cerr s' = err"
proof -
  let ?s = "fresh b (scast (argc + 1) * sizeof_string_view) out err"
  let ?k = "nat (sint argc)"
  have u: "unat (scast argc :: size_t) = ?k" using assms by (rule unat_scast_nonneg)
  have "?k < 2147483648" using sint_c_int_bound [of argc] by linarith
  then have m: "\<not> max_size < ?k" by (simp add: max_size_def)
  show ?thesis
  proof (cases "?k = 0")
    case True
    then have "reserve (scast argc) vector_init ?s = (Inr vector_init, ?s)"
      by (simp add: reserve_def u m vector_init_def)
    then show ?thesis using True by (simp add: vector_init_def fresh_def)
  next
    case False
    have "(of_nat (unat (scast argc :: size_t)) :: size_t) = scast argc" by simp
    then have "(of_nat ?k :: size_t) = scast argc" by (simp only: u)
    moreover have "scast argc * sizeof_string_view \<le> buf_size (pmr_alloc ?s)"
      using reservation_le_buffer [OF assms] by (simp add: fresh_def my_cust_allocator_init_def)
    ultimately have "do_allocate (of_nat ?k * sizeof_string_view) alignof_string_view ?s =
      (Inr (buf (pmr_alloc ?s)),
       ?s\<lparr>pmr_alloc := (pmr_alloc ?s)\<lparr>buf_size := buf_size (pmr_alloc ?s)
                                              - scast argc * sizeof_string_view\<rparr>\<rparr>)"
      by (simp only: do_allocate_succeeds)
    then have "vec_allocate ?k ?s =
      (Inr (Some (buf (pmr_alloc ?s))),
       ?s\<lparr>pmr_alloc := (pmr_alloc ?s)\<lparr>buf_size := buf_size (pmr_alloc ?s)
                                              - scast argc * sizeof_string_view\<rparr>\<rparr>)"
      using False by (simp add: vec_allocate_def)
    then have "reserve (scast argc) vector_init ?s =
      (Inr \<lparr>vec_data = Some (buf (pmr_alloc ?s)), vec_elems = [], vec_capacity = ?k\<rparr>,
       ?s\<lparr>pmr_alloc := (pmr_alloc ?s)\<lparr>buf_size := buf_size (pmr_alloc ?s)
                                              - scast argc * sizeof_string_view\<rparr>\<rparr>)"
      using False by (simp add: reserve_def u m vector_init_def vec_deallocate_def)
    then show ?thesis by (simp add: fresh_def)
  qed
qed

lemma main_args_unfold:
  "main_args argc argv b =
     (case reserve (scast argc) vector_init
             (fresh b (scast (argc + 1) * sizeof_string_view) []
                (''DEBUG: argc: '' @ dec_int argc @ '', sizeof(std::string_view): ''
                 @ dec (unat sizeof_string_view) @ [CHR 0x0A])) of
        (Inl e, s') \<Rightarrow> (Inl e, s')
      | (Inr args, s') \<Rightarrow> emplace_args argc argv 0 args s')"
  by (simp add: main_args_def fresh_def Let_def)

lemma main_args_filled:
  fixes argc :: c_int
  assumes "0 \<le>s argc" and "nat (sint argc) \<le> length argv"
  shows "\<exists>v s. main_args argc argv b = (Inr v, s) \<and>
               vec_elems v = take (nat (sint argc)) argv \<and> cout s = [] \<and>
               cerr s = ''DEBUG: argc: '' @ dec_int argc @ '', sizeof(std::string_view): ''
                        @ dec (unat sizeof_string_view) @ [CHR 0x0A]"
proof -
  let ?err = "''DEBUG: argc: '' @ dec_int argc @ '', sizeof(std::string_view): ''
              @ dec (unat sizeof_string_view) @ [CHR 0x0A]"
  from reserve_in_main [OF assms(1), of b "[]" ?err]
  obtain v0 s0 where r: "reserve (scast argc) vector_init
        (fresh b (scast (argc + 1) * sizeof_string_view) [] ?err) = (Inr v0, s0)"
    and e0: "vec_elems v0 = []" and c0: "vec_capacity v0 = nat (sint argc)"
    and o0: "cout s0 = []" and d0: "cerr s0 = ?err"
    by blast
  have z: "(0 :: c_int) \<le>s 0" by simp
  have l0: "length (vec_elems v0) = nat (sint (0 :: c_int))" using e0 by simp
  from emplace_args_filled [OF z assms(1) l0 c0 assms(2), of s0]
  have "emplace_args argc argv 0 v0 s0 =
          (Inr (v0\<lparr>vec_elems := take (nat (sint argc)) argv\<rparr>), s0)"
    using e0 by simp
  with r have "main_args argc argv b = (Inr (v0\<lparr>vec_elems := take (nat (sint argc)) argv\<rparr>), s0)"
    by (simp add: main_args_unfold)
  with o0 d0 show ?thesis by simp
qed

lemma span_at_error: "span_at args i = Inl e \<Longrightarrow> e = out_of_bounds"
  by (auto simp: span_at_def Let_def split: if_splits)

lemma print_args_exit: "\<not> i <s last_i \<Longrightarrow> print_args args last_i i s = (Inr (), s)"
  by (simp add: print_args.simps [of args last_i i s])

lemma print_args_step:
  "i <s last_i \<Longrightarrow> span_at args i = Inr arg \<Longrightarrow>
   print_args args last_i i s =
     print_args args last_i (i + 1) ((prn_arg arg s)\<lparr>cout := cout (prn_arg arg s) @ '' ''\<rparr>)"
  by (simp add: print_args.simps [of args last_i i s])

lemma print_args_stop:
  "i <s last_i \<Longrightarrow> span_at args i = Inl e \<Longrightarrow> print_args args last_i i s = (Inl e, s)"
  by (simp add: print_args.simps [of args last_i i s])

lemma print_args_frame:
  "cerr (snd (print_args args last_i i s)) = cerr s \<and>
   pmr_alloc (snd (print_args args last_i i s)) = pmr_alloc s \<and>
   fst (print_args args last_i i s) \<noteq> Inl bad_alloc"
proof (induction args last_i i s rule: print_args.induct)
  case (1 args last_i i s)
  show ?case
  proof (cases "i <s last_i")
    case True
    show ?thesis
    proof (cases "span_at args i")
      case (Inl e)
      then have "e = out_of_bounds" by (rule span_at_error)
      with True Inl show ?thesis by (simp add: print_args_stop)
    next
      case (Inr arg)
      from "1.IH" [OF True Inr] show ?thesis
        by (simp add: print_args_step [OF True Inr] prn_arg_def)
    qed
  next
    case False
    then show ?thesis by (simp add: print_args_exit)
  qed
qed

lemma span_at_in_range:
  "0 \<le>s i \<Longrightarrow> nat (sint i) < length args \<Longrightarrow> span_at args i = Inr (args ! nat (sint i))"
  by (simp add: span_at_def Let_def unat_scast_nonneg)

lemma print_args_in_bounds:
  assumes "0 \<le>s i" and "i \<le>s last_i" and "nat (sint last_i) < length args"
  shows "fst (print_args args last_i i s) = Inr ()"
  using assms
proof (induction args last_i i s rule: print_args.induct)
  case (1 args last_i i s)
  show ?case
  proof (cases "i <s last_i")
    case True
    from "1.prems"(1) have nn: "0 \<le> sint i" by (simp add: word_sle_eq)
    from True have lt: "sint i < sint last_i" by (simp add: word_sless_alt)
    have s1: "sint (i + 1) = sint i + 1" using True by (rule sint_succ)
    have "nat (sint i) < length args" using nn lt "1.prems"(3) by linarith
    with "1.prems"(1) have sp: "span_at args i = Inr (args ! nat (sint i))"
      by (rule span_at_in_range)
    have "fst (print_args args last_i (i + 1)
                 ((prn_arg (args ! nat (sint i)) s)
                    \<lparr>cout := cout (prn_arg (args ! nat (sint i)) s) @ '' ''\<rparr>)) = Inr ()"
    proof (rule "1.IH" [OF True sp])
      show "0 \<le>s i + 1" using nn s1 by (simp add: word_sle_eq)
      show "i + 1 \<le>s last_i" using lt s1 by (simp add: word_sle_eq)
      show "nat (sint last_i) < length args" by (rule "1.prems"(3))
    qed
    then show ?thesis by (simp add: print_args_step [OF True sp])
  next
    case False
    then show ?thesis by (simp add: print_args_exit)
  qed
qed

lemma better_main_frame:
  "cerr (snd (better_main args s)) = cerr s \<and> fst (better_main args s) \<noteq> Inl bad_alloc"
proof -
  let ?s0 = "s\<lparr>cout := cout s @ ''DEBUG: ''\<rparr>"
  let ?last = "ucast (of_nat (length args) - 1 :: size_t) :: c_int"
  obtain r s1 where p: "print_args args ?last 0 ?s0 = (r, s1)" by fastforce
  from print_args_frame [of args ?last 0 ?s0] p
  have c: "cerr s1 = cerr s" and nb: "r \<noteq> Inl bad_alloc" by simp_all
  show ?thesis
  proof (cases r)
    case (Inl e)
    with p c nb show ?thesis by (simp add: better_main_def Let_def)
  next
    case (Inr u)
    show ?thesis
    proof (cases "span_at args ?last")
      case (Inl e)
      then have "e = out_of_bounds" by (rule span_at_error)
      with p c Inr Inl show ?thesis by (simp add: better_main_def Let_def)
    next
      case (Inr arg)
      with p c \<open>r = Inr u\<close> show ?thesis by (simp add: better_main_def Let_def prn_arg_def)
    qed
  qed
qed

lemma better_main_in_bounds:
  assumes "1 \<le> length args" and "length args \<le> 2 ^ 31"
  shows "fst (better_main args s) = Inr 0"
proof -
  let ?s0 = "s\<lparr>cout := cout s @ ''DEBUG: ''\<rparr>"
  let ?last = "ucast (of_nat (length args) - 1 :: size_t) :: c_int"
  have sl: "sint ?last = int (length args) - 1" using assms by (rule sint_last_i)
  have "0 \<le> sint ?last" using assms(1) by (simp only: sl; arith)
  then have nn: "0 \<le>s ?last" by (simp only: word_sle_eq sint_0)
  have lt: "nat (sint ?last) < length args" using assms(1) by (simp only: sl; arith)
  have z: "(0 :: c_int) \<le>s 0" by simp
  obtain r s1 where p: "print_args args ?last 0 ?s0 = (r, s1)" by fastforce
  from print_args_in_bounds [OF z nn lt, of ?s0] p have r: "r = Inr ()" by simp
  from nn lt have sp: "span_at args ?last = Inr (args ! nat (sint ?last))"
    by (rule span_at_in_range)
  from p r sp show ?thesis by (simp add: better_main_def Let_def)
qed

lemma ucast_minus_one: "(ucast (- 1 :: size_t) :: c_int) = - 1"
  by (rule bit_word_eqI) (simp add: bit_simps)

lemma span_at_empty: "span_at [] i = Inl out_of_bounds"
  by (simp add: span_at_def Let_def)

lemma better_main_empty: "fst (better_main [] s) = Inl out_of_bounds"
proof -
  have "(of_nat (length ([] :: string_view list)) - 1 :: size_t) = - 1" by simp
  then have l: "(ucast (of_nat (length ([] :: string_view list)) - 1 :: size_t) :: c_int) = - 1"
    by (simp only: ucast_minus_one)
  have "\<not> (0 :: c_int) <s - 1" by simp
  then have p: "print_args [] (- 1) 0 (s\<lparr>cout := cout s @ ''DEBUG: ''\<rparr>)
                  = (Inr (), s\<lparr>cout := cout s @ ''DEBUG: ''\<rparr>)"
    by (rule print_args_exit)
  show ?thesis by (simp only: better_main_def Let_def l p span_at_empty) simp
qed

lemma better_main_three:
  "better_main [''prog'', ''hello'', ''world''] s =
     (Inr 0, s\<lparr>cout := cout s @ ''DEBUG: '' @ [CHR 0x22] @ ''prog'' @ [CHR 0x22] @ '' ''
                      @ [CHR 0x22] @ ''hello'' @ [CHR 0x22] @ '' ''
                      @ [CHR 0x22] @ ''world'' @ [CHR 0x22] @ [CHR 0x0A]\<rparr>)"
  by (simp add: better_main_def Let_def print_args.simps span_at_def prn_arg_def word_sless_alt)

lemma better_main_one:
  "better_main [''prog''] s =
     (Inr 0, s\<lparr>cout := cout s @ ''DEBUG: '' @ [CHR 0x22] @ ''prog'' @ [CHR 0x22] @ [CHR 0x0A]\<rparr>)"
  by (simp add: better_main_def Let_def print_args.simps span_at_def prn_arg_def word_sless_alt)

lemma main_via_better_main:
  fixes argc :: c_int
  assumes "0 \<le>s argc" and "length argv = nat (sint argc)"
  shows "\<exists>s. cout s = [] \<and> main argc argv b = better_main argv s"
proof -
  from assms(2) have "nat (sint argc) \<le> length argv" by simp
  from main_args_filled [OF assms(1) this, of b]
  obtain v s where m: "main_args argc argv b = (Inr v, s)"
    and e: "vec_elems v = take (nat (sint argc)) argv" and o: "cout s = []"
    by blast
  from e assms(2) have "vec_elems v = argv" by simp
  with m have "main argc argv b = better_main argv s" by (simp add: main_def)
  with o show ?thesis by blast
qed

lemma main_three:
  "fst (main 3 [''prog'', ''hello'', ''world''] b) = Inr 0 \<and>
   cout (snd (main 3 [''prog'', ''hello'', ''world''] b)) =
     ''DEBUG: '' @ [CHR 0x22] @ ''prog'' @ [CHR 0x22] @ '' '' @ [CHR 0x22] @ ''hello'' @ [CHR 0x22]
     @ '' '' @ [CHR 0x22] @ ''world'' @ [CHR 0x22] @ [CHR 0x0A]"
proof -
  have "(0 :: c_int) \<le>s 3" by (simp add: word_sle_eq)
  moreover have "length [''prog'', ''hello'', ''world''] = nat (sint (3 :: c_int))" by simp
  ultimately obtain s where "cout s = []"
    and "main 3 [''prog'', ''hello'', ''world''] b = better_main [''prog'', ''hello'', ''world''] s"
    using main_via_better_main [of 3 "[''prog'', ''hello'', ''world'']" b] by blast
  then show ?thesis by (simp add: better_main_three)
qed

lemma main_one:
  "fst (main 1 [''prog''] b) = Inr 0 \<and>
   cout (snd (main 1 [''prog''] b)) = ''DEBUG: '' @ [CHR 0x22] @ ''prog'' @ [CHR 0x22] @ [CHR 0x0A]"
proof -
  have "(0 :: c_int) \<le>s 1" by (simp add: word_sle_eq)
  moreover have "length [''prog''] = nat (sint (1 :: c_int))" by simp
  ultimately obtain s where "cout s = []"
    and "main 1 [''prog''] b = better_main [''prog''] s"
    using main_via_better_main [of 1 "[''prog'']" b] by blast
  then show ?thesis by (simp add: better_main_one)
qed

lemma main_status:
  fixes argc :: c_int
  assumes "1 \<le>s argc" and "length argv = nat (sint argc)"
  shows "fst (main argc argv b) = Inr 0"
proof -
  from assms(1) have pos: "1 \<le> sint argc" by (simp add: word_sle_eq)
  then have nn: "0 \<le>s argc" by (simp add: word_sle_eq)
  from main_via_better_main [OF nn assms(2), of b]
  obtain s where m: "main argc argv b = better_main argv s" by blast
  have "1 \<le> length argv" using pos assms(2) by simp
  moreover have "length argv \<le> 2 ^ 31" using sint_c_int_bound [of argc] assms(2) by simp
  ultimately have "fst (better_main argv s) = Inr 0" by (rule better_main_in_bounds)
  with m show ?thesis by simp
qed

lemma main_no_arguments: "fst (main 0 [] b) = Inl out_of_bounds"
proof -
  have "(0 :: c_int) \<le>s 0" by simp
  moreover have "length ([] :: string list) = nat (sint (0 :: c_int))" by simp
  ultimately obtain s where "main 0 [] b = better_main [] s"
    using main_via_better_main [of 0 "[]" b] by blast
  then show ?thesis by (simp add: better_main_empty)
qed

lemma main_never_out_of_capacity:
  fixes argc :: c_int
  assumes "0 \<le>s argc"
  shows "fst (main argc argv b) \<noteq> Inl bad_alloc \<and>
         cerr (snd (main argc argv b)) =
           ''DEBUG: argc: '' @ dec_int argc @ '', sizeof(std::string_view): ''
           @ dec (unat sizeof_string_view) @ [CHR 0x0A]"
proof -
  let ?err = "''DEBUG: argc: '' @ dec_int argc @ '', sizeof(std::string_view): ''
              @ dec (unat sizeof_string_view) @ [CHR 0x0A]"
  from reserve_in_main [OF assms, of b "[]" ?err]
  obtain v0 s0 where r: "reserve (scast argc) vector_init
        (fresh b (scast (argc + 1) * sizeof_string_view) [] ?err) = (Inr v0, s0)"
    and e0: "vec_elems v0 = []" and c0: "vec_capacity v0 = nat (sint argc)"
    and d0: "cerr s0 = ?err"
    by blast
  have z: "(0 :: c_int) \<le>s 0" by simp
  have l0: "length (vec_elems v0) = nat (sint (0 :: c_int))" using e0 by simp
  from r have m: "main_args argc argv b = emplace_args argc argv 0 v0 s0"
    by (simp add: main_args_unfold)
  from emplace_args_no_alloc [OF z assms l0 c0, of argv s0]
  have sn: "snd (main_args argc argv b) = s0"
    and nb: "fst (main_args argc argv b) \<noteq> Inl bad_alloc"
    by (simp_all add: m)
  show ?thesis
  proof (cases "fst (main_args argc argv b)")
    case (Inl e)
    with sn have "main_args argc argv b = (Inl e, s0)" by (metis prod.collapse)
    with nb Inl d0 show ?thesis by (simp add: main_def)
  next
    case (Inr v)
    with sn have "main_args argc argv b = (Inr v, s0)" by (metis prod.collapse)
    then have "main argc argv b = better_main (vec_elems v) s0" by (simp add: main_def)
    with better_main_frame [of "vec_elems v" s0] d0 show ?thesis by simp
  qed
qed

lemma better_main_beyond_int:
  "fst (better_main (replicate 2147483649 ''x'') s) = Inl out_of_bounds"
proof -
  let ?args = "replicate 2147483649 ''x''"
  let ?s0 = "s\<lparr>cout := cout s @ ''DEBUG: ''\<rparr>"
  have "(of_nat (length ?args) - 1 :: size_t) = 2147483648" by simp
  moreover have "(ucast (2147483648 :: size_t) :: c_int) = 2147483648" by simp
  ultimately have l: "(ucast (of_nat (length ?args) - 1 :: size_t) :: c_int) = 2147483648"
    by (simp only:)
  have "\<not> (0 :: c_int) <s 2147483648" by (simp add: word_sless_alt)
  then have p: "print_args ?args 2147483648 0 ?s0 = (Inr (), ?s0)" by (rule print_args_exit)
  have "sint (2147483648 :: c_int) = - 2147483648" by simp
  then have "(scast (2147483648 :: c_int) :: size_t) = word_of_int (- 2147483648)"
    by (simp only: scast_eq)
  moreover have "unat (word_of_int (- 2147483648) :: size_t) = 18446744071562067968"
    by (simp add: unsigned_of_int take_bit_eq_mod)
  ultimately have idx: "unat (scast (2147483648 :: c_int) :: size_t) = 18446744071562067968"
    by (simp only:)
  have "\<not> (18446744071562067968 :: nat) < length ?args" by simp
  then have sp: "span_at ?args 2147483648 = Inl out_of_bounds"
    by (simp only: span_at_def Let_def idx if_False)
  show ?thesis by (simp only: better_main_def Let_def l p sp) simp
qed

section \<open>Properties of the entry point and the consumer\<close>

text \<open>
  Claim C3. For every argument count \<open>argc \<ge> 1\<close> and every argument array of that
  length, \<open>main\<close> builds its vector without error, the vector has exactly \<open>argc\<close>
  elements, and element \<open>i\<close> holds the characters of \<open>argv[i]\<close> unchanged, in the
  original order.
\<close>

theorem argument_sequence_built:
  fixes argc :: c_int
  assumes "1 \<le>s argc" and "length argv = nat (sint argc)"
  shows "\<exists>args s. main_args argc argv b = (Inr args, s) \<and>
                   length (vec_elems args) = nat (sint argc) \<and>
                   (\<forall>i<nat (sint argc). vec_elems args ! i = argv ! i)"
proof -
  from assms(1) have "1 \<le> sint argc" by (simp add: word_sle_eq)
  then have nn: "0 \<le>s argc" by (simp add: word_sle_eq)
  from assms(2) have "nat (sint argc) \<le> length argv" by simp
  from main_args_filled [OF nn this, of b]
  obtain v s where m: "main_args argc argv b = (Inr v, s)"
    and e: "vec_elems v = take (nat (sint argc)) argv"
    by blast
  from e assms(2) have "vec_elems v = argv" by simp
  with m assms(2) show ?thesis by simp
qed

theorem argument_sequence_built_witness:
  "(1 :: c_int) \<le>s 3 \<and>
   length [''prog'', ''hello'', ''world''] = nat (sint (3 :: c_int)) \<and>
   (\<exists>args s. main_args 3 [''prog'', ''hello'', ''world''] 4096 = (Inr args, s) \<and>
              length (vec_elems args) = 3 \<and>
              (\<forall>i<3. vec_elems args ! i = [''prog'', ''hello'', ''world''] ! i))"
proof -
  have h1: "(1 :: c_int) \<le>s 3" by (simp add: word_sle_eq)
  have h2: "length [''prog'', ''hello'', ''world''] = nat (sint (3 :: c_int))" by simp
  from argument_sequence_built [OF h1 h2, of 4096] h1 h2 show ?thesis by simp
qed

text \<open>
  Claim C2, as the code has it. Invoked with \<open>prog hello world\<close>, the program writes
  \<open>DEBUG: "prog" "hello" "world"\<close> and a newline to standard output and returns 0: the
  quoted arguments, separated by single spaces, come after the prefix \<open>DEBUG: \<close> that
  \<open>better_main\<close> writes first.
\<close>

theorem main_prog_hello_world:
  "fst (main 3 [''prog'', ''hello'', ''world''] b) = Inr 0 \<and>
   cout (snd (main 3 [''prog'', ''hello'', ''world''] b)) =
     ''DEBUG: '' @ [CHR 0x22] @ ''prog'' @ [CHR 0x22] @ '' '' @ [CHR 0x22] @ ''hello'' @ [CHR 0x22]
     @ '' '' @ [CHR 0x22] @ ''world'' @ [CHR 0x22] @ [CHR 0x0A]"
  by (rule main_three)

text \<open>
  The output is not the bare list of quoted arguments that the claim states: it begins
  with \<open>DEBUG: \<close>.
\<close>

theorem main_prog_hello_world_not_bare:
  "cout (snd (main 3 [''prog'', ''hello'', ''world''] 4096)) \<noteq>
     [CHR 0x22] @ ''prog'' @ [CHR 0x22] @ '' '' @ [CHR 0x22] @ ''hello'' @ [CHR 0x22]
     @ '' '' @ [CHR 0x22] @ ''world'' @ [CHR 0x22] @ [CHR 0x0A]"
  using main_three [of 4096] by simp

text \<open>
  Claim C6, as the code has it. Invoked with the single argument \<open>prog\<close>, the program
  writes \<open>DEBUG: "prog"\<close> and a newline to standard output and returns 0: after the
  prefix \<open>DEBUG: \<close> comes the one quoted argument, with no separator and no trailing
  space before the newline.
\<close>

theorem main_prog_alone:
  "fst (main 1 [''prog''] b) = Inr 0 \<and>
   cout (snd (main 1 [''prog''] b)) = ''DEBUG: '' @ [CHR 0x22] @ ''prog'' @ [CHR 0x22] @ [CHR 0x0A]"
  by (rule main_one)

text \<open>The output is not the bare quoted argument that the claim states.\<close>

theorem main_prog_alone_not_bare:
  "cout (snd (main 1 [''prog''] 4096)) \<noteq> [CHR 0x22] @ ''prog'' @ [CHR 0x22] @ [CHR 0x0A]"
  using main_one [of 4096] by simp

text \<open>
  Claim C9. For every \<open>argc \<ge> 0\<close> the \<open>argc\<close> records that \<open>args.reserve(argc)\<close>
  asks for fit into the buffer of \<open>(argc + 1) * sizeof(std::string_view)\<close> bytes, the
  reservation succeeds in the arena constructed over that buffer, and \<open>main\<close> never
  ends in \<open>std::bad_alloc\<close>: the failure diagnostic is never written, \<open>std::cerr\<close>
  holding the start-up line only.
\<close>

theorem reservation_within_capacity:
  fixes argc :: c_int
  assumes "0 \<le>s argc"
  shows "scast argc * sizeof_string_view \<le> (scast (argc + 1) * sizeof_string_view :: size_t) \<and>
         (\<exists>v s. reserve (scast argc) vector_init
                   (fresh b (scast (argc + 1) * sizeof_string_view) out err) = (Inr v, s)) \<and>
         fst (main argc argv b) \<noteq> Inl bad_alloc \<and>
         cerr (snd (main argc argv b)) =
           ''DEBUG: argc: '' @ dec_int argc @ '', sizeof(std::string_view): ''
           @ dec (unat sizeof_string_view) @ [CHR 0x0A]"
proof (intro conjI)
  show "scast argc * sizeof_string_view \<le> (scast (argc + 1) * sizeof_string_view :: size_t)"
    using assms by (rule reservation_le_buffer)
  show "\<exists>v s. reserve (scast argc) vector_init
                 (fresh b (scast (argc + 1) * sizeof_string_view) out err) = (Inr v, s)"
    using reserve_in_main [OF assms, of b out err] by blast
  show "fst (main argc argv b) \<noteq> Inl bad_alloc"
    using main_never_out_of_capacity [OF assms, of argv b] by simp
  show "cerr (snd (main argc argv b)) =
          ''DEBUG: argc: '' @ dec_int argc @ '', sizeof(std::string_view): ''
          @ dec (unat sizeof_string_view) @ [CHR 0x0A]"
    using main_never_out_of_capacity [OF assms, of argv b] by simp
qed

theorem reservation_within_capacity_witness:
  "(0 :: c_int) \<le>s 3 \<and>
   scast (3 :: c_int) * sizeof_string_view \<le> (scast (3 + 1 :: c_int) * sizeof_string_view :: size_t) \<and>
   fst (main 3 [''prog'', ''hello'', ''world''] 4096) \<noteq> Inl bad_alloc"
proof -
  have h: "(0 :: c_int) \<le>s 3" by (simp add: word_sle_eq)
  from reservation_within_capacity [OF h, of 4096 "[]" "[]" "[''prog'', ''hello'', ''world'']"] h
  show ?thesis by blast
qed

text \<open>
  Claim C10, as the code has it. \<open>better_main\<close> reads \<open>args[last_i]\<close> with
  \<open>last_i = args.size() - 1\<close> narrowed to \<open>int\<close>, without a test for emptiness. For
  every sequence of at least 1 and at most \<open>2^31\<close> elements, the lengths for which
  \<open>size - 1\<close> is an \<open>int\<close>, every index is in bounds and 0 is returned; so it is for
  every sequence that \<open>main\<close> builds from \<open>argc \<ge> 1\<close> arguments. For the empty
  sequence, which \<open>main\<close> builds when \<open>argc = 0\<close>, the final read is out of bounds.
\<close>

theorem better_main_indexing:
  fixes argc :: c_int
  shows "(1 \<le> length args \<and> length args \<le> 2 ^ 31 \<longrightarrow> fst (better_main args s) = Inr 0) \<and>
         (1 \<le>s argc \<and> length argv = nat (sint argc) \<longrightarrow> fst (main argc argv b) = Inr 0) \<and>
         fst (better_main [] s) = Inl out_of_bounds \<and>
         fst (main 0 [] b) = Inl out_of_bounds"
proof (intro conjI impI)
  assume "1 \<le> length args \<and> length args \<le> 2 ^ 31"
  then show "fst (better_main args s) = Inr 0" by (simp add: better_main_in_bounds)
next
  assume "1 \<le>s argc \<and> length argv = nat (sint argc)"
  then show "fst (main argc argv b) = Inr 0" by (simp add: main_status)
next
  show "fst (better_main [] s) = Inl out_of_bounds" by (rule better_main_empty)
next
  show "fst (main 0 [] b) = Inl out_of_bounds" by (rule main_no_arguments)
qed

theorem better_main_indexing_witness:
  "1 \<le> length [''prog''] \<and> length [''prog''] \<le> (2 :: nat) ^ 31 \<and>
   fst (better_main [''prog''] (fresh 4096 32 [] [])) = Inr 0 \<and>
   (1 :: c_int) \<le>s 1 \<and> length [''prog''] = nat (sint (1 :: c_int)) \<and>
   fst (main 1 [''prog''] 4096) = Inr 0"
proof -
  have h1: "1 \<le> length [''prog''] \<and> length [''prog''] \<le> (2 :: nat) ^ 31" by simp
  have h2: "(1 :: c_int) \<le>s 1 \<and> length [''prog''] = nat (sint (1 :: c_int))" by simp
  from better_main_indexing [of "[''prog'']" "fresh 4096 32 [] []" 1 "[''prog'']" 4096] h1 h2
  show ?thesis by blast
qed

text \<open>
  A non-empty sequence on which the claim as stated fails: with \<open>2^31 + 1\<close> elements,
  \<open>size - 1\<close> narrowed to \<open>int\<close> is negative, the loop is skipped and the final read
  is out of bounds.
\<close>

theorem better_main_indexing_beyond_int:
  "1 \<le> length (replicate 2147483649 ''x'') \<and>
   fst (better_main (replicate 2147483649 ''x'') (fresh 4096 32 [] [])) = Inl out_of_bounds"
  using better_main_beyond_int [of "fresh 4096 32 [] []"] by simp

end
